theory Spec2Isabelle
  imports Main
begin

section \<open>Python values used by the upload queue\<close>

text \<open>
  Exceptions, by the class that decides which handler of the worker loop takes them:
  \<^verbatim>\<open>queue.Empty\<close> (taken by \<^verbatim>\<open>except queue.Empty: continue\<close>), \<^verbatim>\<open>KeyError\<close> and every
  other instance of \<^verbatim>\<open>Exception\<close> (taken by \<^verbatim>\<open>except Exception as e\<close>), and the classes
  that derive from \<^verbatim>\<open>BaseException\<close> only (\<^verbatim>\<open>SystemExit\<close>, \<^verbatim>\<open>KeyboardInterrupt\<close>,
  \<^verbatim>\<open>GeneratorExit\<close>), which no handler of the loop takes.
\<close>

datatype pyexn =
    QueueEmpty
  | KeyError string
  | OtherException string
  | NonException string

text \<open>\<^verbatim>\<open>str(e)\<close>: a \<^verbatim>\<open>KeyError\<close> prints the repr of its key, \<^verbatim>\<open>queue.Empty()\<close> prints empty.\<close>

fun str_of :: "pyexn \<Rightarrow> string" where
  "str_of QueueEmpty = []"
| "str_of (KeyError k) = [CHR 0x27] @ k @ [CHR 0x27]"
| "str_of (OtherException m) = m"
| "str_of (NonException m) = m"

text \<open>\<^verbatim>\<open>d[k]\<close> on a dict whose key \<^verbatim>\<open>k\<close> may be absent.\<close>

definition subscript :: "string \<Rightarrow> 'a option \<Rightarrow> pyexn + 'a" where
  "subscript k v = (case v of None \<Rightarrow> Inl (KeyError k) | Some x \<Rightarrow> Inr x)"

text \<open>
  A task is a dict (\<^verbatim>\<open>Dict[str, Any]\<close>); the worker reads six of its keys, each of which
  may be absent. Other keys (\<^verbatim>\<open>batch_id\<close>, \<^verbatim>\<open>timestamp\<close>, ...) are never read by the queue.
\<close>

record task =
  title :: "string option"
  description :: "string option"
  price :: "string option"
  category_id :: "int option"
  sku :: "string option"
  images :: "string list option"

text \<open>
  The two dict shapes \<^verbatim>\<open>upload_media\<close> returns: \<^verbatim>\<open>{'success': True, 'id', 'url'}\<close> and
  \<^verbatim>\<open>{'success': False, 'error', ...}\<close>.
\<close>

datatype upload_result = UploadOk int string | UploadFailed string

fun upload_success :: "upload_result \<Rightarrow> bool" where
  "upload_success (UploadOk i u) = True"
| "upload_success (UploadFailed e) = False"

fun upload_id :: "upload_result \<Rightarrow> pyexn + int" where
  "upload_id (UploadOk i u) = Inr i"
| "upload_id (UploadFailed e) = Inl (KeyError ''id'')"

text \<open>The dict \<^verbatim>\<open>wc_product_data\<close>; \<^verbatim>\<open>categories\<close> and \<^verbatim>\<open>images\<close> are lists of \<^verbatim>\<open>{'id': n}\<close>.\<close>

record wc_product_data =
  wc_name :: string
  wc_description :: string
  wc_type :: string
  wc_regular_price :: string
  wc_categories :: "int list"
  wc_sku :: string
  wc_images :: "int list"

text \<open>The dict \<^verbatim>\<open>create_product\<close> returns: \<^verbatim>\<open>success\<close> always, the other keys by shape.\<close>

record create_result =
  cr_success :: bool
  cr_status_code :: "int option"
  cr_data :: "string option"
  cr_error :: "string option"

text \<open>
  What the worker puts on the results queue: the literal
  \<^verbatim>\<open>{'success': False, 'title', 'error', 'task'}\<close>, or the dict returned by
  \<^verbatim>\<open>create_product\<close> with the key \<^verbatim>\<open>task\<close> added.
\<close>

datatype result = Failure string string task | Outcome create_result task

fun success :: "result \<Rightarrow> bool" where
  "success (Failure ti e t) = False"
| "success (Outcome r t) = cr_success r"

fun error_of :: "result \<Rightarrow> string option" where
  "error_of (Failure ti e t) = Some e"
| "error_of (Outcome r t) = cr_error r"

fun task_of :: "result \<Rightarrow> task" where
  "task_of (Failure ti e t) = t"
| "task_of (Outcome r t) = t"

section \<open>The injected capabilities and the state\<close>

text \<open>
  \<^verbatim>\<open>wp_api.upload_media\<close> and \<^verbatim>\<open>wc_api.create_product\<close> are injected objects: each call
  may raise or return, and may change the outside world \<open>'w\<close>.
\<close>

record 'w api =
  upload_media :: "string \<Rightarrow> 'w \<Rightarrow> (pyexn + upload_result) \<times> 'w"
  create_product :: "wc_product_data \<Rightarrow> 'w \<Rightarrow> (pyexn + create_result) \<times> 'w"

datatype call = UploadMedia string | CreateProduct wc_product_data

text \<open>Where a thread of the manager stands: about to test \<^verbatim>\<open>self.running\<close>, waiting
  inside \<^verbatim>\<open>get(timeout=1)\<close>, or finished.\<close>

datatype pc = AtWhile | InGet | Exited

type_synonym addr = nat

record stats_dict =
  completed :: int
  failed :: int
  total :: int

text \<open>
  The manager's fields, the store of stats dicts (\<open>heap\<close>, allocated below \<open>next_addr\<close>;
  \<open>stats\<close> is the reference held in \<^verbatim>\<open>self.stats\<close>), the outside world, and two logs of
  what leaves the manager: the capability invocations (\<open>calls\<close>) and the results handed
  to \<^verbatim>\<open>on_upload_complete\<close> (\<open>delivered\<close>). \<open>unfinished_tasks\<close> is the counter of
  \<^verbatim>\<open>queue.Queue\<close> that \<^verbatim>\<open>put\<close> increments, \<^verbatim>\<open>task_done\<close> decrements and \<^verbatim>\<open>join\<close> waits for.
\<close>

record 'w state =
  world :: 'w
  calls :: "call list"
  heap :: "addr \<Rightarrow> stats_dict"
  next_addr :: addr
  stats :: addr
  upload_queue :: "task list"
  unfinished_tasks :: nat
  results_queue :: "result list"
  delivered :: "result list"
  running :: bool
  workers :: "pc list"
  results_thread :: pc

definition init :: "'w \<Rightarrow> nat \<Rightarrow> 'w state" where
  "init w max_workers =
     \<lparr>world = w, calls = [],
      heap = (\<lambda>a. \<lparr>completed = 0, failed = 0, total = 0\<rparr>), next_addr = 1, stats = 0,
      upload_queue = [], unfinished_tasks = 0, results_queue = [], delivered = [],
      running = True, workers = replicate max_workers AtWhile, results_thread = AtWhile\<rparr>"

definition counters :: "'w state \<Rightarrow> stats_dict" where
  "counters st = heap st (stats st)"

definition produced :: "'w state \<Rightarrow> result list" where
  "produced st = delivered st @ results_queue st"

section \<open>Primitive operations\<close>

definition results_put :: "result \<Rightarrow> 'w state \<Rightarrow> 'w state" where
  "results_put r st = st\<lparr>results_queue := results_queue st @ [r]\<rparr>"

text \<open>\<^verbatim>\<open>Queue.task_done\<close> raises \<^verbatim>\<open>ValueError\<close> when called more often than \<^verbatim>\<open>put\<close>.\<close>

definition task_done :: "'w state \<Rightarrow> pyexn + 'w state" where
  "task_done st =
     (if unfinished_tasks st = 0 then Inl (OtherException ''task_done() called too many times'')
      else Inr (st\<lparr>unfinished_tasks := unfinished_tasks st - 1\<rparr>))"

definition incr_completed :: "'w state \<Rightarrow> 'w state" where
  "incr_completed st =
     st\<lparr>heap := (heap st)(stats st := (heap st (stats st))\<lparr>completed := completed (heap st (stats st)) + 1\<rparr>)\<rparr>"

definition incr_failed :: "'w state \<Rightarrow> 'w state" where
  "incr_failed st =
     st\<lparr>heap := (heap st)(stats st := (heap st (stats st))\<lparr>failed := failed (heap st (stats st)) + 1\<rparr>)\<rparr>"

definition incr_total :: "'w state \<Rightarrow> 'w state" where
  "incr_total st =
     st\<lparr>heap := (heap st)(stats st := (heap st (stats st))\<lparr>total := total (heap st (stats st)) + 1\<rparr>)\<rparr>"

section \<open>The worker\<close>

text \<open>Lines 52-60: the uploads, in the order of \<^verbatim>\<open>task['images']\<close>.\<close>

fun upload_images ::
  "'w api \<Rightarrow> string list \<Rightarrow> upload_result list \<Rightarrow> 'w state \<Rightarrow> (pyexn + upload_result list) \<times> 'w state"
where
  "upload_images api [] uploaded_images st = (Inr uploaded_images, st)"
| "upload_images api (image_path # rest) uploaded_images st =
     (case upload_media api image_path (world st) of
        (r, w') \<Rightarrow>
          (case r of
             Inl e \<Rightarrow> (Inl e, st\<lparr>world := w', calls := calls st @ [UploadMedia image_path]\<rparr>)
           | Inr res \<Rightarrow>
               upload_images api rest
                 (if upload_success res then uploaded_images @ [res] else uploaded_images)
                 (st\<lparr>world := w', calls := calls st @ [UploadMedia image_path]\<rparr>)))"

text \<open>Lines 73-81: the dict literal, its subscripts evaluated in the order written.\<close>

definition prepare_product_data :: "task \<Rightarrow> pyexn + wc_product_data" where
  "prepare_product_data t =
     (case subscript ''title'' (title t) of Inl e \<Rightarrow> Inl e | Inr n \<Rightarrow>
      (case subscript ''description'' (description t) of Inl e \<Rightarrow> Inl e | Inr d \<Rightarrow>
       (case subscript ''price'' (price t) of Inl e \<Rightarrow> Inl e | Inr p \<Rightarrow>
        (case subscript ''category_id'' (category_id t) of Inl e \<Rightarrow> Inl e | Inr c \<Rightarrow>
           Inr \<lparr>wc_name = n, wc_description = d, wc_type = ''simple'', wc_regular_price = p,
                wc_categories = [c], wc_sku = (case sku t of None \<Rightarrow> [] | Some s \<Rightarrow> s),
                wc_images = []\<rparr>))))"

text \<open>Lines 84-89: \<^verbatim>\<open>insert(0, image_data)\<close> for index 0, \<^verbatim>\<open>append\<close> for the others.\<close>

fun add_images :: "nat \<Rightarrow> upload_result list \<Rightarrow> int list \<Rightarrow> pyexn + int list" where
  "add_images i [] imgs = Inr imgs"
| "add_images i (img_info # rest) imgs =
     (case upload_id img_info of
        Inl e \<Rightarrow> Inl e
      | Inr image_data \<Rightarrow>
          add_images (Suc i) rest (if i = 0 then image_data # imgs else imgs @ [image_data]))"

text \<open>Line 92: the call of \<^verbatim>\<open>create_product\<close>.\<close>

definition call_create ::
  "'w api \<Rightarrow> wc_product_data \<Rightarrow> 'w state \<Rightarrow> (pyexn + create_result) \<times> 'w state" where
  "call_create api pd st =
     (case create_product api pd (world st) of
        (r, w') \<Rightarrow> (r, st\<lparr>world := w', calls := calls st @ [CreateProduct pd]\<rparr>))"

text \<open>Lines 62-70: no uploaded image.\<close>

definition no_images :: "task \<Rightarrow> 'w state \<Rightarrow> pyexn option \<times> 'w state" where
  "no_images t st =
     (case subscript ''title'' (title t) of
        Inl e \<Rightarrow> (Some e, st)
      | Inr ti \<Rightarrow>
          (case task_done (results_put (Failure ti ''No images uploaded successfully'' t) st) of
             Inl e \<Rightarrow> (Some e, results_put (Failure ti ''No images uploaded successfully'' t) st)
           | Inr st' \<Rightarrow> (None, st')))"

text \<open>Lines 93-105: the result of \<^verbatim>\<open>create_product\<close>, the counters, the results queue.\<close>

definition record_result :: "create_result \<Rightarrow> task \<Rightarrow> 'w state \<Rightarrow> pyexn option \<times> 'w state" where
  "record_result res t st =
     (case task_done
             (results_put (Outcome res t)
                (if cr_success res then incr_completed st else incr_failed st)) of
        Inl e \<Rightarrow>
          (Some e,
           results_put (Outcome res t) (if cr_success res then incr_completed st else incr_failed st))
      | Inr st' \<Rightarrow> (None, st'))"

text \<open>Lines 72-105: payload, images, record creation.\<close>

definition create_record ::
  "'w api \<Rightarrow> task \<Rightarrow> upload_result list \<Rightarrow> 'w state \<Rightarrow> pyexn option \<times> 'w state" where
  "create_record api t uploaded_images st =
     (case prepare_product_data t of
        Inl e \<Rightarrow> (Some e, st)
      | Inr pd \<Rightarrow>
          (case add_images 0 uploaded_images (wc_images pd) of
             Inl e \<Rightarrow> (Some e, st)
           | Inr imgs \<Rightarrow>
               (case call_create api (pd\<lparr>wc_images := imgs\<rparr>) st of
                  (Inl e, st') \<Rightarrow> (Some e, st')
                | (Inr res, st') \<Rightarrow> record_result res t st')))"

text \<open>
  Lines 49-106, the body of the \<^verbatim>\<open>try\<close> after \<^verbatim>\<open>get\<close> has returned task \<open>t\<close>: the exception
  that leaves it, if any, and the state at that point.
\<close>

definition try_body :: "'w api \<Rightarrow> task \<Rightarrow> 'w state \<Rightarrow> pyexn option \<times> 'w state" where
  "try_body api t st =
     (case subscript ''images'' (images t) of
        Inl e \<Rightarrow> (Some e, st)
      | Inr paths \<Rightarrow>
          (case upload_images api paths [] st of
             (Inl e, st') \<Rightarrow> (Some e, st')
           | (Inr uploaded_images, st') \<Rightarrow>
               if uploaded_images = [] then no_images t st'
               else create_record api t uploaded_images st'))"

definition set_pc :: "nat \<Rightarrow> pc \<Rightarrow> 'w state \<Rightarrow> 'w state" where
  "set_pc i p st = st\<lparr>workers := (workers st)[i := p]\<rparr>"

text \<open>Lines 110-119, the handler \<^verbatim>\<open>except Exception as e\<close>; an exception raised inside it
  leaves the loop and ends the thread.\<close>

definition handler :: "nat \<Rightarrow> task \<Rightarrow> pyexn \<Rightarrow> 'w state \<Rightarrow> 'w state" where
  "handler i t e st =
     (case task_done
             (results_put
                (Failure (case title t of None \<Rightarrow> ''Unknown'' | Some ti \<Rightarrow> ti) (str_of e) t)
                (incr_failed st)) of
        Inl e' \<Rightarrow>
          set_pc i Exited
            (results_put
               (Failure (case title t of None \<Rightarrow> ''Unknown'' | Some ti \<Rightarrow> ti) (str_of e) t)
               (incr_failed st))
      | Inr st' \<Rightarrow> set_pc i AtWhile st')"

text \<open>One iteration of worker \<open>i\<close> on the task \<open>t\<close> that \<^verbatim>\<open>get\<close> returned.\<close>

definition process_task :: "'w api \<Rightarrow> nat \<Rightarrow> task \<Rightarrow> 'w state \<Rightarrow> 'w state" where
  "process_task api i t st =
     (case try_body api t st of
        (None, st') \<Rightarrow> set_pc i AtWhile st'
      | (Some QueueEmpty, st') \<Rightarrow> set_pc i AtWhile st'
      | (Some (NonException m), st') \<Rightarrow> set_pc i Exited st'
      | (Some (KeyError k), st') \<Rightarrow> handler i t (KeyError k) st'
      | (Some (OtherException m), st') \<Rightarrow> handler i t (OtherException m) st')"

text \<open>
  One step of worker \<open>i\<close>, from one suspension point of \<^verbatim>\<open>_process_queue_worker\<close> to the
  next: the test of \<^verbatim>\<open>self.running\<close>, or the return of \<^verbatim>\<open>get(timeout=1)\<close> (with a task, or
  with \<^verbatim>\<open>queue.Empty\<close> on an empty queue) and the iteration that follows it.
\<close>

definition worker_step :: "'w api \<Rightarrow> nat \<Rightarrow> 'w state \<Rightarrow> 'w state" where
  "worker_step api i st =
     (if i < length (workers st) then
        (case workers st ! i of
           AtWhile \<Rightarrow> set_pc i (if running st then InGet else Exited) st
         | InGet \<Rightarrow>
             (case upload_queue st of
                [] \<Rightarrow> set_pc i AtWhile st
              | t # q \<Rightarrow> process_task api i t (st\<lparr>upload_queue := q\<rparr>))
         | Exited \<Rightarrow> st)
      else st)"

section \<open>The results thread\<close>

text \<open>\<^verbatim>\<open>_process_results\<close>: each result taken from the results queue is handed to
  \<^verbatim>\<open>on_upload_complete\<close>.\<close>

definition results_step :: "'w state \<Rightarrow> 'w state" where
  "results_step st =
     (case results_thread st of
        AtWhile \<Rightarrow> st\<lparr>results_thread := (if running st then InGet else Exited)\<rparr>
      | InGet \<Rightarrow>
          (case results_queue st of
             [] \<Rightarrow> st\<lparr>results_thread := AtWhile\<rparr>
           | r # q \<Rightarrow> st\<lparr>results_queue := q, delivered := delivered st @ [r], results_thread := AtWhile\<rparr>)
      | Exited \<Rightarrow> st)"

section \<open>The operations of the manager\<close>

definition add_to_queue :: "task \<Rightarrow> 'w state \<Rightarrow> int \<times> 'w state" where
  "add_to_queue product_data st =
     (int (length (upload_queue st @ [product_data])),
      incr_total
        (st\<lparr>upload_queue := upload_queue st @ [product_data],
            unfinished_tasks := Suc (unfinished_tasks st)\<rparr>))"


definition get_active_workers :: "'w state \<Rightarrow> int" where
  "get_active_workers st = int (length (filter (\<lambda>p. p \<noteq> Exited) (workers st)))"

text \<open>\<^verbatim>\<open>self.stats.copy()\<close>: a new dict with the same items; its reference is returned.\<close>

definition get_stats :: "'w state \<Rightarrow> addr \<times> 'w state" where
  "get_stats st =
     (next_addr st,
      st\<lparr>heap := (heap st)(next_addr st := heap st (stats st)), next_addr := Suc (next_addr st)\<rparr>)"

text \<open>Any mutation by a caller of the dict it holds at reference \<open>a\<close>, leaving it as \<open>d\<close>.\<close>

definition mutate :: "addr \<Rightarrow> stats_dict \<Rightarrow> 'w state \<Rightarrow> 'w state" where
  "mutate a d st = st\<lparr>heap := (heap st)(a := d)\<rparr>"

text \<open>\<^verbatim>\<open>stop\<close>: the joins wait at most two seconds each and change nothing.\<close>

definition stop :: "'w state \<Rightarrow> 'w state" where
  "stop st = st\<lparr>running := False\<rparr>"

section \<open>Runs\<close>

datatype event =
    AddToQueue task
  | GetQueueSize
  | GetActiveWorkers
  | GetStats
  | Stop
  | WorkerStep nat
  | ResultsStep

fun step :: "'w api \<Rightarrow> event \<Rightarrow> 'w state \<Rightarrow> 'w state" where
  "step api (AddToQueue t) st = snd (add_to_queue t st)"
| "step api GetQueueSize st = st"
| "step api GetActiveWorkers st = st"
| "step api GetStats st = snd (get_stats st)"
| "step api Stop st = stop st"
| "step api (WorkerStep i) st = worker_step api i st"
| "step api ResultsStep st = results_step st"

fun run :: "'w api \<Rightarrow> event list \<Rightarrow> 'w state \<Rightarrow> 'w state" where
  "run api [] st = st"
| "run api (e # es) st = run api es (step api e st)"

text \<open>
  \<^verbatim>\<open>Queue.join\<close> is \<^verbatim>\<open>while self.unfinished_tasks: self.all_tasks_done.wait()\<close>. The caller
  is blocked while the other threads take the steps \<open>es\<close>; \<open>None\<close> says it is still
  blocked when they have all been taken.
\<close>

fun join :: "'w api \<Rightarrow> event list \<Rightarrow> 'w state \<Rightarrow> ('w state \<times> event list) option" where
  "join api [] st = (if unfinished_tasks st = 0 then Some (st, []) else None)"
| "join api (e # es) st =
     (if unfinished_tasks st = 0 then Some (st, e # es) else join api es (step api e st))"

definition wait_for_completion ::
  "'w api \<Rightarrow> 't \<Rightarrow> event list \<Rightarrow> 'w state \<Rightarrow> ('w state \<times> event list) option" where
  "wait_for_completion api timeout es st = join api es st"

section \<open>What the claims speak of\<close>

text \<open>
  The outcomes of the uploads of a task, in the order of its paths: each call returns or
  raises, and nothing is uploaded after a raise.
\<close>

fun upload_outcomes :: "'w api \<Rightarrow> string list \<Rightarrow> 'w \<Rightarrow> (pyexn + upload_result) list" where
  "upload_outcomes api [] w = []"
| "upload_outcomes api (p # ps) w =
     (case upload_media api p w of
        (Inl e, w') \<Rightarrow> [Inl e]
      | (Inr r, w') \<Rightarrow> Inr r # upload_outcomes api ps w')"


text \<open>The tasks submitted by a run, in order.\<close>

fun submitted :: "event list \<Rightarrow> task list" where
  "submitted [] = []"
| "submitted (AddToQueue t # es) = t # submitted es"
| "submitted (e # es) = submitted es"

text \<open>The workers waiting inside \<^verbatim>\<open>get(timeout=1)\<close>.\<close>

definition waiting :: "'w state \<Rightarrow> nat" where
  "waiting st = length (filter (\<lambda>p. p = InGet) (workers st))"

definition le_stats :: "stats_dict \<Rightarrow> stats_dict \<Rightarrow> bool" where
  "le_stats a b = (completed a \<le> completed b \<and> failed a \<le> failed b \<and> total a \<le> total b)"

text \<open>
  What the processing of task \<open>t\<close> may do to the manager: it appends results, all of
  them for \<open>t\<close>, to the results queue, raises counters and marks tasks done; the
  task queue, the flag, the threads, the delivered results and the references stay as
  they are.
\<close>

definition advances :: "task \<Rightarrow> 'w state \<Rightarrow> 'w state \<Rightarrow> bool" where
  "advances t st st' =
     (upload_queue st' = upload_queue st \<and> running st' = running st
      \<and> workers st' = workers st \<and> results_thread st' = results_thread st \<and> delivered st' = delivered st
      \<and> stats st' = stats st \<and> next_addr st' = next_addr st
      \<and> unfinished_tasks st' \<le> unfinished_tasks st
      \<and> le_stats (heap st (stats st)) (heap st' (stats st))
      \<and> (\<exists>new. results_queue st' = results_queue st @ new \<and> set (map task_of new) \<subseteq> {t}))"

section \<open>Mock capabilities and tasks\<close>

text \<open>The uploader of the spec's scenarios: \<^verbatim>\<open>a.jpg\<close> uploads with id 1, every other path
  fails; record creation answers 201.\<close>

definition mock_api :: "unit api" where
  "mock_api =
     \<lparr>upload_media =
        (\<lambda>p w. (if p = ''a.jpg'' then Inr (UploadOk 1 ''/media/a.jpg'') else Inr (UploadFailed ''HTTP 500''), w)),
      create_product =
        (\<lambda>pd w. (Inr \<lparr>cr_success = True, cr_status_code = Some 201, cr_data = Some ''{id: 7}'', cr_error = None\<rparr>, w))\<rparr>"

text \<open>An uploader that raises \<open>e\<close> on every call.\<close>

definition raising_api :: "pyexn \<Rightarrow> unit api" where
  "raising_api e =
     \<lparr>upload_media = (\<lambda>p w. (Inl e, w)),
      create_product =
        (\<lambda>pd w. (Inr \<lparr>cr_success = True, cr_status_code = Some 201, cr_data = Some ''{id: 7}'', cr_error = None\<rparr>, w))\<rparr>"

definition widget :: "string list \<Rightarrow> task" where
  "widget paths =
     \<lparr>title = Some ''Widget'', description = Some ''A widget'', price = Some ''9.99'',
      category_id = Some 5, sku = None, images = Some paths\<rparr>"

text \<open>One worker, one submitted task, and the two steps of the worker that process it.\<close>

definition one_task_run :: "unit api \<Rightarrow> task \<Rightarrow> unit state" where
  "one_task_run api t = run api [AddToQueue t, WorkerStep 0, WorkerStep 0] (init () (Suc 0))"

text \<open>One worker waiting in \<^verbatim>\<open>get\<close> and one submitted task.\<close>

definition ready :: "task \<Rightarrow> unit state" where
  "ready t = run mock_api [WorkerStep 0, AddToQueue t] (init () (Suc 0))"

text \<open>Scenario D: the only worker waits in \<^verbatim>\<open>get\<close>, two tasks are submitted, none is
  in the pipeline.\<close>

definition scenario_D :: "unit state" where
  "scenario_D =
     run mock_api [WorkerStep 0, AddToQueue (widget [''a.jpg'']), AddToQueue (widget [''b.jpg''])]
       (init () (Suc 0))"


section \<open>What processing a task changes\<close>

lemma upload_images_frame:
  "upload_images api ps acc st = (r, st') \<Longrightarrow> st' = st\<lparr>world := world st', calls := calls st'\<rparr>"
proof (induction ps arbitrary: acc st)
  case Nil
  then show ?case by simp
next
  case (Cons p ps)
  show ?case
  proof (cases "upload_media api p (world st)")
    case (Pair out w')
    show ?thesis
    proof (cases out)
      case (Inl e)
      with Pair Cons.prems show ?thesis by auto
    next
      case (Inr res)
      with Pair Cons.prems have
        "upload_images api ps (if upload_success res then acc @ [res] else acc)
           (st\<lparr>world := w', calls := calls st @ [UploadMedia p]\<rparr>) = (r, st')"
        by simp
      from Cons.IH [OF this] show ?thesis by simp
    qed
  qed
qed

lemma upload_images_outcomes:
  "upload_outcomes api ps (world st) = map Inr rs \<Longrightarrow>
     fst (upload_images api ps acc st) = Inr (acc @ filter upload_success rs)
     \<and> calls (snd (upload_images api ps acc st)) = calls st @ map UploadMedia ps"
proof (induction ps arbitrary: acc st rs)
  case Nil
  then show ?case by simp
next
  case (Cons p ps)
  show ?case
  proof (cases "upload_media api p (world st)")
    case (Pair out w')
    show ?thesis
    proof (cases out)
      case (Inl e)
      with Pair Cons.prems show ?thesis by (cases rs) auto
    next
      case (Inr res)
      with Pair Cons.prems obtain rs' where rs: "rs = res # rs'"
        and out: "upload_outcomes api ps w' = map Inr rs'"
        by (cases rs) auto
      let ?st1 = "st\<lparr>world := w', calls := calls st @ [UploadMedia p]\<rparr>"
      from out have "upload_outcomes api ps (world ?st1) = map Inr rs'" by simp
      from Cons.IH [OF this, of "if upload_success res then acc @ [res] else acc"]
      show ?thesis using Pair Inr rs by simp
    qed
  qed
qed



lemma le_stats_refl: "le_stats a a"
  by (simp add: le_stats_def)

lemma le_stats_trans: "le_stats a b \<Longrightarrow> le_stats b c \<Longrightarrow> le_stats a c"
  by (auto simp: le_stats_def)

lemma advances_refl: "advances t st st"
  by (simp add: advances_def le_stats_refl)

lemma advances_trans:
  assumes "advances t a b" and "advances t b c"
  shows "advances t a c"
proof -
  from assms(1) obtain n1 where n1: "results_queue b = results_queue a @ n1" "set (map task_of n1) \<subseteq> {t}"
    unfolding advances_def by blast
  from assms(2) obtain n2 where n2: "results_queue c = results_queue b @ n2" "set (map task_of n2) \<subseteq> {t}"
    unfolding advances_def by blast
  have res: "results_queue c = results_queue a @ (n1 @ n2) \<and> set (map task_of (n1 @ n2)) \<subseteq> {t}"
    using n1 n2 by auto
  have le: "le_stats (heap a (stats a)) (heap c (stats a))"
    using assms le_stats_trans unfolding advances_def by metis
  show ?thesis
    unfolding advances_def using assms res le
    by (intro conjI exI [of _ "n1 @ n2"]) (simp_all add: advances_def)
qed

lemma advances_world_calls: "advances t st (st\<lparr>world := w, calls := c\<rparr>)"
  by (simp add: advances_def le_stats_refl)

lemma results_put_advances: "task_of r = t \<Longrightarrow> advances t st (results_put r st)"
  by (simp add: advances_def results_put_def le_stats_refl)

lemma task_done_advances: "task_done st = Inr st' \<Longrightarrow> advances t st st'"
  by (auto simp: advances_def task_done_def le_stats_refl split: if_splits)

lemma incr_completed_advances: "advances t st (incr_completed st)"
  by (simp add: advances_def incr_completed_def le_stats_def)

lemma incr_failed_advances: "advances t st (incr_failed st)"
  by (simp add: advances_def incr_failed_def le_stats_def)

lemma upload_images_advances:
  assumes "upload_images api ps acc st = (r, st')"
  shows "advances t st st'"
proof -
  from upload_images_frame [OF assms] have "st' = st\<lparr>world := world st', calls := calls st'\<rparr>" .
  then show ?thesis using advances_world_calls [where t = t and st = st and w = "world st'" and c = "calls st'"] by simp
qed

lemma call_create_advances: "advances t st (snd (call_create api pd st))"
  by (simp add: call_create_def advances_def le_stats_refl split: prod.splits)

lemma no_images_advances: "advances t st (snd (no_images t st))"
proof (cases "title t")
  case None
  then show ?thesis by (simp add: no_images_def subscript_def advances_refl)
next
  case (Some ti)
  let ?st1 = "results_put (Failure ti ''No images uploaded successfully'' t) st"
  have a1: "advances t st ?st1" by (simp add: results_put_advances)
  show ?thesis
  proof (cases "task_done ?st1")
    case (Inl e)
    with Some a1 show ?thesis by (simp add: no_images_def subscript_def)
  next
    case (Inr st2)
    with Some show ?thesis
      using advances_trans [OF a1 task_done_advances [OF Inr]]
      by (simp add: no_images_def subscript_def)
  qed
qed

lemma record_result_advances: "advances t st (snd (record_result res t st))"
proof -
  let ?st1 = "if cr_success res then incr_completed st else incr_failed st"
  let ?st2 = "results_put (Outcome res t) ?st1"
  have a1: "advances t st ?st1" by (simp add: incr_completed_advances incr_failed_advances)
  have a2: "advances t st ?st2"
    by (rule advances_trans [OF a1]) (simp add: results_put_advances)
  show ?thesis
  proof (cases "task_done ?st2")
    case (Inl e)
    with a2 show ?thesis by (simp add: record_result_def)
  next
    case (Inr st3)
    with advances_trans [OF a2 task_done_advances [OF Inr]] show ?thesis
      by (simp add: record_result_def)
  qed
qed

lemma create_record_advances: "advances t st (snd (create_record api t ups st))"
proof (cases "prepare_product_data t")
  case (Inl e)
  then show ?thesis by (simp add: create_record_def advances_refl)
next
  case pd: (Inr pd)
  show ?thesis
  proof (cases "add_images 0 ups (wc_images pd)")
    case (Inl e)
    with pd show ?thesis by (simp add: create_record_def advances_refl)
  next
    case imgs: (Inr imgs)
    obtain out st1 where cc: "call_create api (pd\<lparr>wc_images := imgs\<rparr>) st = (out, st1)"
      by (cases "call_create api (pd\<lparr>wc_images := imgs\<rparr>) st")
    have a1: "advances t st st1" using call_create_advances [of t st api "pd\<lparr>wc_images := imgs\<rparr>"] cc by simp
    show ?thesis
    proof (cases out)
      case (Inl e)
      with pd imgs cc a1 show ?thesis by (simp add: create_record_def)
    next
      case (Inr res)
      with pd imgs cc advances_trans [OF a1 record_result_advances [of t st1 res]] show ?thesis
        by (simp add: create_record_def)
    qed
  qed
qed

lemma try_body_advances: "advances t st (snd (try_body api t st))"
proof (cases "images t")
  case None
  then show ?thesis by (simp add: try_body_def subscript_def advances_refl)
next
  case (Some paths)
  obtain out st1 where up: "upload_images api paths [] st = (out, st1)"
    by (cases "upload_images api paths [] st")
  have a1: "advances t st st1" by (rule upload_images_advances [OF up])
  show ?thesis
  proof (cases out)
    case (Inl e)
    with Some up a1 show ?thesis by (simp add: try_body_def subscript_def)
  next
    case (Inr ups)
    show ?thesis
    proof (cases "ups = []")
      case True
      with Some up Inr advances_trans [OF a1 no_images_advances [of t st1]] show ?thesis
        by (simp add: try_body_def subscript_def)
    next
      case False
      with Some up Inr advances_trans [OF a1 create_record_advances [of t st1 api ups]] show ?thesis
        by (simp add: try_body_def subscript_def)
    qed
  qed
qed

lemma set_pc_advances_fields:
  "upload_queue (set_pc i p st) = upload_queue st" "running (set_pc i p st) = running st"
  "produced (set_pc i p st) = produced st" "counters (set_pc i p st) = counters st"
  "unfinished_tasks (set_pc i p st) = unfinished_tasks st" "calls (set_pc i p st) = calls st"
  "workers (set_pc i p st) = (workers st)[i := p]"
  "results_queue (set_pc i p st) = results_queue st"
  by (simp_all add: set_pc_def produced_def counters_def)

lemma handler_shape:
  "\<exists>p st'. p \<noteq> InGet \<and> advances t st st' \<and> handler i t e st = set_pc i p st'"
proof -
  let ?r = "Failure (case title t of None \<Rightarrow> ''Unknown'' | Some ti \<Rightarrow> ti) (str_of e) t"
  let ?st2 = "results_put ?r (incr_failed st)"
  have a2: "advances t st ?st2"
    by (rule advances_trans [OF incr_failed_advances]) (simp add: results_put_advances)
  show ?thesis
  proof (cases "task_done ?st2")
    case (Inl e')
    then have "handler i t e st = set_pc i Exited ?st2" by (simp add: handler_def)
    with a2 show ?thesis by blast
  next
    case (Inr st3)
    then have "handler i t e st = set_pc i AtWhile st3" by (simp add: handler_def)
    moreover have "advances t st st3" by (rule advances_trans [OF a2 task_done_advances [OF Inr]])
    ultimately show ?thesis by blast
  qed
qed

lemma process_task_shape:
  "\<exists>p st'. p \<noteq> InGet \<and> advances t st st' \<and> process_task api i t st = set_pc i p st'"
proof -
  obtain out st1 where tb: "try_body api t st = (out, st1)" by (cases "try_body api t st")
  have a1: "advances t st st1" using try_body_advances [of t st api] tb by simp
  show ?thesis
  proof (cases out)
    case None
    with tb have "process_task api i t st = set_pc i AtWhile st1" by (simp add: process_task_def)
    with a1 show ?thesis by blast
  next
    case (Some e)
    show ?thesis
    proof (cases e)
      case QueueEmpty
      with Some tb have "process_task api i t st = set_pc i AtWhile st1" by (simp add: process_task_def)
      with a1 show ?thesis by blast
    next
      case (NonException m)
      with Some tb have "process_task api i t st = set_pc i Exited st1" by (simp add: process_task_def)
      with a1 show ?thesis by blast
    next
      case (KeyError k)
      with Some tb have pt: "process_task api i t st = handler i t e st1" by (simp add: process_task_def)
      from handler_shape [of t st1 i e] obtain p st2 where
        "p \<noteq> InGet" "advances t st1 st2" "handler i t e st1 = set_pc i p st2" by blast
      with pt advances_trans [OF a1] show ?thesis by metis
    next
      case (OtherException m)
      with Some tb have pt: "process_task api i t st = handler i t e st1" by (simp add: process_task_def)
      from handler_shape [of t st1 i e] obtain p st2 where
        "p \<noteq> InGet" "advances t st1 st2" "handler i t e st1 = set_pc i p st2" by blast
      with pt advances_trans [OF a1] show ?thesis by metis
    qed
  qed
qed

lemma filter_update_count:
  "i < length xs \<Longrightarrow>
     length (filter P (xs[i := y])) + (if P (xs ! i) then 1 else 0)
       = length (filter P xs) + (if P y then 1 else 0)"
proof (induction xs arbitrary: i)
  case Nil
  then show ?case by simp
next
  case (Cons x xs)
  then show ?case by (cases i) auto
qed

lemma waiting_leave:
  "i < length (workers st) \<Longrightarrow> workers st ! i = InGet \<Longrightarrow> p \<noteq> InGet \<Longrightarrow>
     Suc (waiting (set_pc i p st)) = waiting st"
  using filter_update_count [of i "workers st" "\<lambda>p. p = InGet" p]
  by (simp add: waiting_def set_pc_def)

lemma waiting_stay:
  "workers st ! i \<noteq> InGet \<Longrightarrow> p \<noteq> InGet \<Longrightarrow> waiting (set_pc i p st) = waiting st"
proof (cases "i < length (workers st)")
  case True
  assume "workers st ! i \<noteq> InGet" "p \<noteq> InGet"
  with True filter_update_count [of i "workers st" "\<lambda>p. p = InGet" p]
  show ?thesis by (simp add: waiting_def set_pc_def)
next
  case False
  then show ?thesis by (simp add: waiting_def set_pc_def list_update_beyond)
qed








section \<open>The capability calls of one iteration\<close>




lemma worker_step_takes:
  "i < length (workers st) \<Longrightarrow> workers st ! i = InGet \<Longrightarrow> upload_queue st = t # q \<Longrightarrow>
     worker_step api i st = process_task api i t (st\<lparr>upload_queue := q\<rparr>)"
  by (simp add: worker_step_def)

lemma uploads_done:
  assumes "upload_outcomes api paths (world st) = map Inr rs"
  obtains st1 where "upload_images api paths [] st = (Inr (filter upload_success rs), st1)"
    and "calls st1 = calls st @ map UploadMedia paths"
    and "results_queue st1 = results_queue st"
    and "unfinished_tasks st1 = unfinished_tasks st"
proof -
  obtain out st1 where up: "upload_images api paths [] st = (out, st1)"
    by (cases "upload_images api paths [] st")
  from upload_images_outcomes [OF assms, of "[]"] up
  have o: "out = Inr (filter upload_success rs)" "calls st1 = calls st @ map UploadMedia paths"
    by simp_all
  from upload_images_frame [OF up] have fr: "st1 = st\<lparr>world := world st1, calls := calls st1\<rparr>" .
  have "results_queue st1 = results_queue (st\<lparr>world := world st1, calls := calls st1\<rparr>)"
    using fr by simp
  then have r: "results_queue st1 = results_queue st" by simp
  have "unfinished_tasks st1 = unfinished_tasks (st\<lparr>world := world st1, calls := calls st1\<rparr>)"
    using fr by simp
  then have u: "unfinished_tasks st1 = unfinished_tasks st" by simp
  from up o r u that show ?thesis by blast
qed

section \<open>Record creation\<close>



text \<open>
  C4 (amended). A worker takes task \<open>t\<close>, which has a title and declares at least one
  image; every upload returns a failure. Then the iteration calls the uploader only,
  never \<^verbatim>\<open>create_product\<close>, puts one failed result for \<open>t\<close> on the results queue, whose
  error is \<^verbatim>\<open>No images uploaded successfully\<close>, and marks the task done.
\<close>

theorem no_create_when_all_uploads_fail:
  assumes "i < length (workers st)" and "workers st ! i = InGet" and "upload_queue st = t # q"
    and "unfinished_tasks st \<noteq> 0"
    and "title t = Some n" and "images t = Some paths" and "paths \<noteq> []"
    and "upload_outcomes api paths (world st) = map Inr rs"
    and "filter upload_success rs = []"
  shows "calls (worker_step api i st) = calls st @ map UploadMedia paths
       \<and> results_queue (worker_step api i st) =
           results_queue st @ [Failure n ''No images uploaded successfully'' t]
       \<and> unfinished_tasks (worker_step api i st) = unfinished_tasks st - 1"
proof -
  let ?st0 = "st\<lparr>upload_queue := q\<rparr>"
  from assms(8) have "upload_outcomes api paths (world ?st0) = map Inr rs" by simp
  then obtain st1 where up: "upload_images api paths [] ?st0 = (Inr (filter upload_success rs), st1)"
    and c1: "calls st1 = calls ?st0 @ map UploadMedia paths"
    and f1: "results_queue st1 = results_queue ?st0"
    and f2: "unfinished_tasks st1 = unfinished_tasks ?st0"
    by (rule uploads_done)
  let ?st3 = "(results_put (Failure n ''No images uploaded successfully'' t) st1)
                \<lparr>unfinished_tasks := unfinished_tasks st - 1\<rparr>"
  have "no_images t st1 = (None, ?st3)"
    using assms(4,5) f1 f2 by (simp add: no_images_def subscript_def task_done_def results_put_def)
  then have "try_body api t ?st0 = (None, ?st3)"
    using up assms(6,9) by (simp add: try_body_def subscript_def)
  then have "worker_step api i st = set_pc i AtWhile ?st3"
    using worker_step_takes [OF assms(1-3), of api] by (simp add: process_task_def)
  then show ?thesis using c1 f1 f2 by (simp add: set_pc_def results_put_def)
qed

theorem no_create_when_all_uploads_fail_witness:
  "calls (worker_step mock_api 0 (ready (widget [''b.jpg'', ''c.jpg''])))
     = [UploadMedia ''b.jpg'', UploadMedia ''c.jpg'']
   \<and> results_queue (worker_step mock_api 0 (ready (widget [''b.jpg'', ''c.jpg''])))
     = [Failure ''Widget'' ''No images uploaded successfully'' (widget [''b.jpg'', ''c.jpg''])]
   \<and> unfinished_tasks (worker_step mock_api 0 (ready (widget [''b.jpg'', ''c.jpg'']))) = 0"
  using no_create_when_all_uploads_fail [of 0 "ready (widget [''b.jpg'', ''c.jpg''])"
      "widget [''b.jpg'', ''c.jpg'']" "[]" "''Widget''"
      "[''b.jpg'', ''c.jpg'']" mock_api "[UploadFailed ''HTTP 500'', UploadFailed ''HTTP 500'']"]
  by (simp add: ready_def init_def mock_api_def widget_def add_to_queue_def incr_total_def
      worker_step_def set_pc_def)

text \<open>
  C4 as stated names another message: with the one image of the task failing to upload,
  the error of the result is not \<^verbatim>\<open>no assets uploaded successfully\<close>.
\<close>

theorem all_uploads_fail_message:
  "results_queue (one_task_run mock_api (widget [''b.jpg''])) =
     [Failure ''Widget'' ''No images uploaded successfully'' (widget [''b.jpg''])]
   \<and> map error_of (results_queue (one_task_run mock_api (widget [''b.jpg''])))
       \<noteq> [Some ''no assets uploaded successfully'']"
  by (simp add: one_task_run_def init_def mock_api_def widget_def add_to_queue_def incr_total_def
      worker_step_def set_pc_def process_task_def try_body_def subscript_def no_images_def
      results_put_def task_done_def)

text \<open>
  C1 (the code departs from it). A task that declares no image: the iteration calls no
  capability at all, \<^verbatim>\<open>create_product\<close> included, and puts a failed result on the
  results queue.
\<close>

theorem assetless_task_fails:
  "calls (one_task_run mock_api (widget [])) = []
   \<and> results_queue (one_task_run mock_api (widget [])) =
        [Failure ''Widget'' ''No images uploaded successfully'' (widget [])]"
  by (simp add: one_task_run_def init_def mock_api_def widget_def add_to_queue_def incr_total_def
      worker_step_def set_pc_def process_task_def try_body_def subscript_def no_images_def
      results_put_def task_done_def)

section \<open>Exceptions at the worker boundary\<close>

lemma no_images_raises:
  "no_images t st = (Some e, st') \<Longrightarrow> unfinished_tasks st \<noteq> 0 \<Longrightarrow> st' = st"
  by (auto simp: no_images_def subscript_def task_done_def results_put_def
      split: option.splits if_splits)

lemma record_result_returns:
  "unfinished_tasks st \<noteq> 0 \<Longrightarrow> fst (record_result res t st) = None"
  by (simp add: record_result_def task_done_def results_put_def incr_completed_def incr_failed_def)

lemma call_create_frame:
  "call_create api pd st = (out, st') \<Longrightarrow> st' = st\<lparr>world := world st', calls := calls st'\<rparr>"
  by (auto simp: call_create_def split: prod.splits)

lemma create_record_raises:
  assumes "create_record api t ups st = (Some e, st')" and "unfinished_tasks st \<noteq> 0"
  shows "st' = st\<lparr>world := world st', calls := calls st'\<rparr>"
proof (cases "prepare_product_data t")
  case (Inl x)
  with assms show ?thesis by (simp add: create_record_def)
next
  case pd: (Inr pd)
  show ?thesis
  proof (cases "add_images 0 ups (wc_images pd)")
    case (Inl x)
    with pd assms show ?thesis by (simp add: create_record_def)
  next
    case imgs: (Inr imgs)
    obtain out st1 where cc: "call_create api (pd\<lparr>wc_images := imgs\<rparr>) st = (out, st1)"
      by (cases "call_create api (pd\<lparr>wc_images := imgs\<rparr>) st")
    note fr = call_create_frame [OF cc]
    show ?thesis
    proof (cases out)
      case (Inl x)
      with pd imgs cc assms have "st' = st1" by (simp add: create_record_def)
      with fr show ?thesis by simp
    next
      case (Inr res)
      have "unfinished_tasks st1 = unfinished_tasks (st\<lparr>world := world st1, calls := calls st1\<rparr>)"
        using fr by simp
      then have "unfinished_tasks st1 \<noteq> 0" using assms(2) by simp
      from record_result_returns [OF this, of res t] pd imgs cc Inr assms(1)
      show ?thesis by (simp add: create_record_def)
    qed
  qed
qed

lemma frame_compose:
  "st1 = st\<lparr>world := world st1, calls := calls st1\<rparr> \<Longrightarrow>
   st2 = st1\<lparr>world := world st2, calls := calls st2\<rparr> \<Longrightarrow>
   st2 = st\<lparr>world := world st2, calls := calls st2\<rparr>"
proof -
  assume a: "st1 = st\<lparr>world := world st1, calls := calls st1\<rparr>"
    and b: "st2 = st1\<lparr>world := world st2, calls := calls st2\<rparr>"
  have "st1\<lparr>world := world st2, calls := calls st2\<rparr>
      = (st\<lparr>world := world st1, calls := calls st1\<rparr>)\<lparr>world := world st2, calls := calls st2\<rparr>"
    using a by simp
  also have "\<dots> = st\<lparr>world := world st2, calls := calls st2\<rparr>" by simp
  finally show ?thesis using b by simp
qed

lemma try_body_raises:
  assumes "try_body api t st = (Some e, st')" and "unfinished_tasks st \<noteq> 0"
  shows "st' = st\<lparr>world := world st', calls := calls st'\<rparr>"
proof (cases "images t")
  case None
  with assms show ?thesis by (simp add: try_body_def subscript_def)
next
  case (Some paths)
  obtain out st1 where up: "upload_images api paths [] st = (out, st1)"
    by (cases "upload_images api paths [] st")
  note fr = upload_images_frame [OF up]
  have "unfinished_tasks st1 = unfinished_tasks (st\<lparr>world := world st1, calls := calls st1\<rparr>)"
    using fr by simp
  then have u1: "unfinished_tasks st1 \<noteq> 0" using assms(2) by simp
  show ?thesis
  proof (cases out)
    case (Inl x)
    with Some up assms have "st' = st1" by (simp add: try_body_def subscript_def)
    with fr show ?thesis by simp
  next
    case (Inr ups)
    show ?thesis
    proof (cases "ups = []")
      case True
      with Some up Inr assms have "no_images t st1 = (Some e, st')"
        by (simp add: try_body_def subscript_def)
      from no_images_raises [OF this u1] fr show ?thesis by simp
    next
      case False
      with Some up Inr assms have "create_record api t ups st1 = (Some e, st')"
        by (simp add: try_body_def subscript_def)
      from frame_compose [OF fr create_record_raises [OF this u1]] show ?thesis .
    qed
  qed
qed




text \<open>An exception outside \<^verbatim>\<open>Exception\<close> ends the worker thread.\<close>

lemma base_exception_ends_worker:
  "workers (one_task_run (raising_api (NonException ''exit'')) (widget [''a.jpg''])) = [Exited]
   \<and> results_queue (one_task_run (raising_api (NonException ''exit'')) (widget [''a.jpg''])) = []"
  by (simp add: one_task_run_def init_def raising_api_def widget_def add_to_queue_def incr_total_def
      worker_step_def set_pc_def process_task_def try_body_def subscript_def)

section \<open>Unfinished tasks\<close>

text \<open>The count of unfinished tasks covers the queued tasks in every state the manager
  reaches, so a worker that has taken a task finds the count nonzero and \<^verbatim>\<open>task_done\<close>
  does not raise.\<close>

lemma no_images_unfinished:
  "length q < unfinished_tasks st \<Longrightarrow> length q \<le> unfinished_tasks (snd (no_images t st))"
  by (auto simp: no_images_def subscript_def task_done_def results_put_def split: option.splits)

lemma record_result_unfinished:
  "length q < unfinished_tasks st \<Longrightarrow> length q \<le> unfinished_tasks (snd (record_result res t st))"
  by (auto simp: record_result_def task_done_def results_put_def incr_completed_def incr_failed_def)

lemma call_create_unfinished:
  "unfinished_tasks (snd (call_create api pd st)) = unfinished_tasks st"
  by (simp add: call_create_def split: prod.splits)

lemma create_record_unfinished:
  assumes "length q < unfinished_tasks st"
  shows "length q \<le> unfinished_tasks (snd (create_record api t ups st))"
proof (cases "prepare_product_data t")
  case (Inl e)
  with assms show ?thesis by (simp add: create_record_def)
next
  case pd: (Inr pd)
  show ?thesis
  proof (cases "add_images 0 ups (wc_images pd)")
    case (Inl e)
    with pd assms show ?thesis by (simp add: create_record_def)
  next
    case imgs: (Inr imgs)
    obtain out st1 where cc: "call_create api (pd\<lparr>wc_images := imgs\<rparr>) st = (out, st1)"
      by (cases "call_create api (pd\<lparr>wc_images := imgs\<rparr>) st")
    with call_create_unfinished [of api "pd\<lparr>wc_images := imgs\<rparr>" st] assms
    have u: "length q < unfinished_tasks st1" by simp
    show ?thesis
      using pd imgs cc u record_result_unfinished [OF u]
      by (cases out) (simp_all add: create_record_def)
  qed
qed

lemma try_body_unfinished:
  assumes "length q < unfinished_tasks st"
  shows "length q \<le> unfinished_tasks (snd (try_body api t st))"
proof (cases "images t")
  case None
  with assms show ?thesis by (simp add: try_body_def subscript_def)
next
  case (Some paths)
  obtain out st1 where up: "upload_images api paths [] st = (out, st1)"
    by (cases "upload_images api paths [] st")
  from upload_images_frame [OF up]
  have "unfinished_tasks st1 = unfinished_tasks (st\<lparr>world := world st1, calls := calls st1\<rparr>)"
    by simp
  with assms have u: "length q < unfinished_tasks st1" by simp
  show ?thesis
    using Some up u no_images_unfinished [OF u] create_record_unfinished [OF u]
    by (cases out) (simp_all add: try_body_def subscript_def)
qed

lemma handler_unfinished:
  "length q < unfinished_tasks st \<Longrightarrow> length q \<le> unfinished_tasks (handler i t e st)"
  by (auto simp: handler_def task_done_def results_put_def incr_failed_def set_pc_def)

lemma process_task_unfinished:
  assumes "length q < unfinished_tasks st"
  shows "length q \<le> unfinished_tasks (process_task api i t st)"
proof -
  obtain out st1 where tb: "try_body api t st = (out, st1)" by (cases "try_body api t st")
  show ?thesis
  proof (cases out)
    case None
    with tb try_body_unfinished [OF assms, of api t] show ?thesis
      by (simp add: process_task_def set_pc_def)
  next
    case (Some e)
    have "unfinished_tasks st1 = unfinished_tasks st"
    proof -
      from assms have "unfinished_tasks st \<noteq> 0" by simp
      from try_body_raises [OF tb [unfolded Some] this]
      have "unfinished_tasks st1 = unfinished_tasks (st\<lparr>world := world st1, calls := calls st1\<rparr>)"
        by simp
      then show ?thesis by simp
    qed
    with assms have u: "length q < unfinished_tasks st1" by simp
    from tb Some u handler_unfinished [OF u] show ?thesis
      by (cases e) (simp_all add: process_task_def set_pc_def)
  qed
qed

lemma step_unfinished:
  assumes "length (upload_queue st) \<le> unfinished_tasks st"
  shows "length (upload_queue (step api e st)) \<le> unfinished_tasks (step api e st)"
proof (cases e)
  case (WorkerStep i)
  show ?thesis
  proof (cases "i < length (workers st) \<and> workers st ! i = InGet \<and> upload_queue st \<noteq> []")
    case False
    with WorkerStep assms show ?thesis
      by (auto simp: worker_step_def set_pc_def split: pc.splits list.splits)
  next
    case True
    then obtain t q where q: "upload_queue st = t # q" by (cases "upload_queue st") auto
    with assms have "length q < unfinished_tasks (st\<lparr>upload_queue := q\<rparr>)" by simp
    from process_task_unfinished [OF this, of api i t]
    have u: "length q \<le> unfinished_tasks (process_task api i t (st\<lparr>upload_queue := q\<rparr>))" .
    from process_task_shape [of t "st\<lparr>upload_queue := q\<rparr>" api i] obtain p st' where
      "advances t (st\<lparr>upload_queue := q\<rparr>) st'"
      "process_task api i t (st\<lparr>upload_queue := q\<rparr>) = set_pc i p st'" by blast
    then have "upload_queue (process_task api i t (st\<lparr>upload_queue := q\<rparr>)) = q"
      by (simp add: advances_def set_pc_def)
    with True q u WorkerStep show ?thesis by (simp add: worker_step_def)
  qed
qed (use assms in \<open>simp_all add: add_to_queue_def incr_total_def get_stats_def stop_def
      results_step_def split: pc.splits list.splits\<close>)

lemma reachable_unfinished:
  "length (upload_queue (run api es (init w n))) \<le> unfinished_tasks (run api es (init w n))"
proof -
  have "\<And>st. length (upload_queue st) \<le> unfinished_tasks st \<Longrightarrow>
      length (upload_queue (run api es st)) \<le> unfinished_tasks (run api es st)"
  proof (induction es)
    case Nil
    then show ?case by simp
  next
    case (Cons e es)
    from Cons.IH [OF step_unfinished [OF Cons.prems, of api e]] show ?case by simp
  qed
  then show ?thesis by (simp add: init_def)
qed

section \<open>Counters\<close>


text \<open>
  C2 (the code departs from it). One task whose only upload fails: one result has been
  produced, and neither \<^verbatim>\<open>completed\<close> nor \<^verbatim>\<open>failed\<close> has counted it.
\<close>

theorem failed_result_not_counted:
  "calls (one_task_run mock_api (widget [''b.jpg''])) = [UploadMedia ''b.jpg'']
   \<and> map success (produced (one_task_run mock_api (widget [''b.jpg'']))) = [False]
   \<and> completed (counters (one_task_run mock_api (widget [''b.jpg''])))
       + failed (counters (one_task_run mock_api (widget [''b.jpg'']))) = 0"
  by (simp add: one_task_run_def init_def mock_api_def widget_def add_to_queue_def incr_total_def
      worker_step_def set_pc_def process_task_def try_body_def subscript_def no_images_def
      results_put_def task_done_def produced_def counters_def)

section \<open>Runs after the flag is down\<close>

lemma produced_advances:
  "advances t st st' \<Longrightarrow> \<exists>new. produced st' = produced st @ new \<and> set (map task_of new) \<subseteq> {t}"
  by (auto simp: advances_def produced_def)

lemma stopped_step:
  assumes "\<not> running st"
  shows "\<not> running (step api e st) \<and>
     ((waiting (step api e st) \<le> waiting st
        \<and> upload_queue (step api e st) = upload_queue st @ submitted [e]
        \<and> produced (step api e st) = produced st)
      \<or> (\<exists>t new. upload_queue st = t # upload_queue (step api e st) \<and> submitted [e] = []
            \<and> Suc (waiting (step api e st)) \<le> waiting st
            \<and> produced (step api e st) = produced st @ new \<and> set (map task_of new) \<subseteq> {t}))"
proof (cases e)
  case (AddToQueue t)
  then show ?thesis using assms
    by (simp add: add_to_queue_def incr_total_def waiting_def produced_def)
next
  case GetQueueSize
  then show ?thesis using assms by simp
next
  case GetActiveWorkers
  then show ?thesis using assms by simp
next
  case GetStats
  then show ?thesis using assms by (simp add: get_stats_def waiting_def produced_def)
next
  case Stop
  then show ?thesis by (simp add: stop_def waiting_def produced_def)
next
  case ResultsStep
  then show ?thesis using assms
    by (simp add: results_step_def waiting_def produced_def split: pc.splits list.splits)
next
  case (WorkerStep i)
  show ?thesis
  proof (cases "i < length (workers st)")
    case False
    with WorkerStep assms show ?thesis by (simp add: worker_step_def)
  next
    case True
    show ?thesis
    proof (cases "workers st ! i")
      case AtWhile
      then have "waiting (set_pc i Exited st) = waiting st" by (simp add: waiting_stay)
      with WorkerStep True AtWhile assms show ?thesis
        by (simp add: worker_step_def set_pc_advances_fields)
    next
      case Exited
      with WorkerStep True assms show ?thesis by (simp add: worker_step_def)
    next
      case InGet
      show ?thesis
      proof (cases "upload_queue st")
        case Nil
        from waiting_leave [OF True InGet, of AtWhile] have "waiting (set_pc i AtWhile st) \<le> waiting st"
          by simp
        with WorkerStep True InGet Nil assms show ?thesis
          by (simp add: worker_step_def set_pc_advances_fields)
      next
        case (Cons t q)
        let ?st0 = "st\<lparr>upload_queue := q\<rparr>"
        from process_task_shape [of t ?st0 api i] obtain p st' where
          p: "p \<noteq> InGet" and adv: "advances t ?st0 st'"
          and pt: "process_task api i t ?st0 = set_pc i p st'" by blast
        have ws: "step api e st = set_pc i p st'"
          using WorkerStep True InGet Cons pt by (simp add: worker_step_def)
        from adv have f: "running st' = running st" "upload_queue st' = q" "workers st' = workers st"
          by (simp_all add: advances_def)
        from produced_advances [OF adv] obtain new where
          new: "produced st' = produced st @ new" "set (map task_of new) \<subseteq> {t}"
          by (auto simp: produced_def)
        have "Suc (waiting (set_pc i p st')) = waiting st'"
          using True InGet p f by (intro waiting_leave) simp_all
        moreover have "waiting st' = waiting st" using f by (simp add: waiting_def)
        ultimately have w: "Suc (waiting (step api e st)) \<le> waiting st" using ws by simp
        have "upload_queue st = t # upload_queue (step api e st)"
          using ws f Cons by (simp add: set_pc_advances_fields)
        moreover have "submitted [e] = []" using WorkerStep by simp
        moreover have "produced (step api e st) = produced st @ new"
          using ws new by (simp add: set_pc_advances_fields)
        moreover have "\<not> running (step api e st)" using ws f assms by (simp add: set_pc_advances_fields)
        ultimately show ?thesis using w new(2) by blast
      qed
    qed
  qed
qed

lemma submitted_Cons: "submitted (e # es) = submitted [e] @ submitted es"
  by (cases e) simp_all

lemma stopped_run:
  "\<not> running st \<Longrightarrow>
     \<exists>j new. j \<le> waiting st
       \<and> upload_queue (run api es st) = drop j (upload_queue st @ submitted es)
       \<and> produced (run api es st) = produced st @ new
       \<and> set (map task_of new) \<subseteq> set (take j (upload_queue st @ submitted es))"
proof (induction es arbitrary: st)
  case Nil
  have "0 \<le> waiting st \<and> upload_queue (run api [] st) = drop 0 (upload_queue st @ submitted [])
        \<and> produced (run api [] st) = produced st @ []
        \<and> set (map task_of []) \<subseteq> set (take 0 (upload_queue st @ submitted []))"
    by simp
  then show ?case by blast
next
  case (Cons e es)
  let ?st1 = "step api e st"
  from stopped_step [OF Cons.prems, of api e] have nr: "\<not> running ?st1" by simp
  from Cons.IH [OF nr] obtain j new where
    j: "j \<le> waiting ?st1"
    and q: "upload_queue (run api es ?st1) = drop j (upload_queue ?st1 @ submitted es)"
    and pr: "produced (run api es ?st1) = produced ?st1 @ new"
    and ts: "set (map task_of new) \<subseteq> set (take j (upload_queue ?st1 @ submitted es))"
    by blast
  from stopped_step [OF Cons.prems, of api e] consider
    (quiet) "waiting ?st1 \<le> waiting st" "upload_queue ?st1 = upload_queue st @ submitted [e]"
      "produced ?st1 = produced st"
    | (dequeue) t new1 where "upload_queue st = t # upload_queue ?st1" "submitted [e] = []"
      "Suc (waiting ?st1) \<le> waiting st" "produced ?st1 = produced st @ new1"
      "set (map task_of new1) \<subseteq> {t}"
    by blast
  then show ?case
  proof cases
    case quiet
    have "j \<le> waiting st" using j quiet by simp
    moreover have "upload_queue (run api (e # es) st) = drop j (upload_queue st @ submitted (e # es))"
      using q quiet submitted_Cons [of e es] by simp
    moreover have "produced (run api (e # es) st) = produced st @ new" using pr quiet by simp
    moreover have "set (map task_of new) \<subseteq> set (take j (upload_queue st @ submitted (e # es)))"
      using ts quiet submitted_Cons [of e es] by simp
    ultimately show ?thesis by blast
  next
    case dequeue
    have sub: "submitted (e # es) = submitted es" using dequeue submitted_Cons [of e es] by simp
    have "Suc j \<le> waiting st" using j dequeue by simp
    moreover have "upload_queue (run api (e # es) st) = drop (Suc j) (upload_queue st @ submitted (e # es))"
      using q dequeue sub by simp
    moreover have "produced (run api (e # es) st) = produced st @ (new1 @ new)"
      using pr dequeue by simp
    moreover have "set (map task_of (new1 @ new)) \<subseteq> set (take (Suc j) (upload_queue st @ submitted (e # es)))"
      using ts dequeue sub by auto
    ultimately show ?thesis by blast
  qed
qed

section \<open>Stop\<close>

text \<open>
  C6 (amended). After \<^verbatim>\<open>stop\<close>, whatever the threads and the callers do next (\<open>es\<close>), the
  task queue is the queue at the stop followed by the later submissions, less its first
  \<open>j\<close> tasks, where \<open>j\<close> is at most the number of workers that were waiting inside
  \<^verbatim>\<open>get(timeout=1)\<close> at the stop; and every result produced after the stop is for one of
  those first \<open>j\<close> tasks. A task behind them is never taken from the queue and no
  result is produced for it; with no worker waiting in \<^verbatim>\<open>get\<close>, that is every task.
\<close>

theorem stop_abandons_queue:
  "\<exists>j new. j \<le> waiting st
     \<and> upload_queue (run api es (stop st)) = drop j (upload_queue st @ submitted es)
     \<and> produced (run api es (stop st)) = produced st @ new
     \<and> set (map task_of new) \<subseteq> set (take j (upload_queue st @ submitted es))"
  using stopped_run [of "stop st" api es] by (simp add: stop_def waiting_def produced_def)

text \<open>
  C6 as stated lets no queued task be taken after the stop. In scenario D the worker
  was already waiting in \<^verbatim>\<open>get\<close>, no task was in the pipeline, and after the stop it
  takes the first task and a result is produced for it.
\<close>

theorem stop_then_dequeue:
  "upload_queue scenario_D = [widget [''a.jpg''], widget [''b.jpg'']]
   \<and> waiting scenario_D = 1
   \<and> upload_queue (run mock_api [WorkerStep 0] (stop scenario_D)) = [widget [''b.jpg'']]
   \<and> map task_of (produced (run mock_api [WorkerStep 0] (stop scenario_D))) = [widget [''a.jpg'']]
   \<and> map success (produced (run mock_api [WorkerStep 0] (stop scenario_D))) = [True]"
  by (simp add: scenario_D_def init_def mock_api_def widget_def add_to_queue_def incr_total_def
      worker_step_def set_pc_def process_task_def try_body_def subscript_def
      create_record_def record_result_def call_create_def prepare_product_data_def
      results_put_def task_done_def incr_completed_def stop_def produced_def waiting_def)

section \<open>Waiting for completion\<close>

lemma join_blocked:
  "join api es st = None \<longleftrightarrow> (\<forall>k\<le>length es. unfinished_tasks (run api (take k es) st) \<noteq> 0)"
proof (induction es arbitrary: st)
  case Nil
  then show ?case by simp
next
  case (Cons e es)
  show ?case
  proof (cases "unfinished_tasks st = 0")
    case True
    then have "\<not> (\<forall>k\<le>length (e # es). unfinished_tasks (run api (take k (e # es)) st) \<noteq> 0)"
      by (auto intro: exI [of _ 0])
    with True show ?thesis by simp
  next
    case False
    have "(\<forall>k\<le>length (e # es). unfinished_tasks (run api (take k (e # es)) st) \<noteq> 0)
        \<longleftrightarrow> (\<forall>k\<le>length es. unfinished_tasks (run api (take k es) (step api e st)) \<noteq> 0)"
    proof
      assume a: "\<forall>k\<le>length (e # es). unfinished_tasks (run api (take k (e # es)) st) \<noteq> 0"
      show "\<forall>k\<le>length es. unfinished_tasks (run api (take k es) (step api e st)) \<noteq> 0"
      proof (intro allI impI)
        fix k assume "k \<le> length es"
        then have "Suc k \<le> length (e # es)" by simp
        from a [rule_format, OF this]
        have "unfinished_tasks (run api (take (Suc k) (e # es)) st) \<noteq> 0" .
        then show "unfinished_tasks (run api (take k es) (step api e st)) \<noteq> 0" by simp
      qed
    next
      assume a: "\<forall>k\<le>length es. unfinished_tasks (run api (take k es) (step api e st)) \<noteq> 0"
      show "\<forall>k\<le>length (e # es). unfinished_tasks (run api (take k (e # es)) st) \<noteq> 0"
      proof (intro allI impI)
        fix k assume k: "k \<le> length (e # es)"
        show "unfinished_tasks (run api (take k (e # es)) st) \<noteq> 0"
        proof (cases k)
          case 0
          with False show ?thesis by simp
        next
          case (Suc k')
          with k have "k' \<le> length es" by simp
          from a [rule_format, OF this] Suc show ?thesis by simp
        qed
      qed
    qed
    with False Cons.IH [of "step api e st"] show ?thesis by simp
  qed
qed

lemma join_returns:
  "join api es st = Some (st', rest) \<Longrightarrow>
     unfinished_tasks st' = 0 \<and> (\<exists>k\<le>length es. st' = run api (take k es) st \<and> rest = drop k es)"
proof (induction es arbitrary: st)
  case Nil
  then show ?case by (simp split: if_splits)
next
  case (Cons e es)
  show ?case
  proof (cases "unfinished_tasks st = 0")
    case True
    with Cons.prems have "st' = st" "rest = e # es" by simp_all
    with True have "unfinished_tasks st' = 0 \<and> 0 \<le> length (e # es)
        \<and> st' = run api (take 0 (e # es)) st \<and> rest = drop 0 (e # es)" by simp
    then show ?thesis by blast
  next
    case False
    with Cons.prems have "join api es (step api e st) = Some (st', rest)" by simp
    from Cons.IH [OF this] obtain k where u: "unfinished_tasks st' = 0" and
      k: "k \<le> length es" "st' = run api (take k es) (step api e st)" "rest = drop k es"
      by blast
    then have "Suc k \<le> length (e # es) \<and> st' = run api (take (Suc k) (e # es)) st
        \<and> rest = drop (Suc k) (e # es)" by simp
    with u show ?thesis by blast
  qed
qed

text \<open>
  C9. \<^verbatim>\<open>wait_for_completion\<close> does the same for any two values of its timeout. It is
  still blocked after the other threads' steps \<open>es\<close> exactly when the count of unfinished
  tasks was nonzero before each of them and after the last; when it returns, it does so
  at the first moment that count is zero, however long that takes.
\<close>

theorem wait_for_completion_ignores_timeout:
  "wait_for_completion api t1 es st = wait_for_completion api t2 es st
   \<and> (wait_for_completion api t1 es st = None
        \<longleftrightarrow> (\<forall>k\<le>length es. unfinished_tasks (run api (take k es) st) \<noteq> 0))
   \<and> (\<forall>st' rest. wait_for_completion api t1 es st = Some (st', rest) \<longrightarrow>
        unfinished_tasks st' = 0
        \<and> (\<exists>k\<le>length es. st' = run api (take k es) st \<and> rest = drop k es))"
  using join_blocked [of api es st] join_returns [of api es st]
  by (simp add: wait_for_completion_def)

theorem wait_for_completion_ignores_timeout_witness:
  "wait_for_completion mock_api (Some (0::int)) [GetQueueSize, ResultsStep] (ready (widget [''a.jpg'']))
     = wait_for_completion mock_api (None::int option) [GetQueueSize, ResultsStep] (ready (widget [''a.jpg'']))
   \<and> wait_for_completion mock_api (Some (0::int)) [GetQueueSize, ResultsStep] (ready (widget [''a.jpg''])) = None
   \<and> unfinished_tasks (ready (widget [''a.jpg''])) = 1"
  using wait_for_completion_ignores_timeout [of mock_api "Some (0::int)" "[GetQueueSize, ResultsStep]"
      "ready (widget [''a.jpg''])" "None::int option"]
  by (simp add: wait_for_completion_def ready_def init_def add_to_queue_def incr_total_def
      worker_step_def set_pc_def results_step_def)

section \<open>Snapshots of the stats\<close>

text \<open>A write to a dict other than the manager's own commutes with every step.\<close>

lemma upload_images_mutate:
  "upload_images api ps acc (mutate a d st) =
     (fst (upload_images api ps acc st), mutate a d (snd (upload_images api ps acc st)))"
proof (induction ps arbitrary: acc st)
  case Nil
  then show ?case by simp
next
  case (Cons p ps)
  show ?case
  proof (cases "upload_media api p (world st)")
    case (Pair out w')
    show ?thesis
    proof (cases out)
      case (Inl e)
      with Pair show ?thesis by (simp add: mutate_def)
    next
      case (Inr res)
      have m: "(mutate a d st)\<lparr>world := w', calls := calls st @ [UploadMedia p]\<rparr>
          = mutate a d (st\<lparr>world := w', calls := calls st @ [UploadMedia p]\<rparr>)"
        by (simp add: mutate_def)
      have w: "world (mutate a d st) = world st" "calls (mutate a d st) = calls st"
        by (simp_all add: mutate_def)
      show ?thesis using Pair Inr by (simp add: w m Cons.IH)
    qed
  qed
qed

lemma stats_mutate: "stats (mutate a d st) = stats st"
  by (simp add: mutate_def)

lemma no_images_mutate:
  "no_images t (mutate a d st) = (fst (no_images t st), mutate a d (snd (no_images t st)))"
  by (simp add: no_images_def subscript_def task_done_def results_put_def mutate_def
      split: option.splits)

lemma record_result_mutate:
  "a \<noteq> stats st \<Longrightarrow>
     record_result res t (mutate a d st) =
       (fst (record_result res t st), mutate a d (snd (record_result res t st)))"
  by (simp add: record_result_def task_done_def results_put_def incr_completed_def
      incr_failed_def mutate_def fun_upd_twist)

lemma call_create_mutate:
  "call_create api pd (mutate a d st) =
     (fst (call_create api pd st), mutate a d (snd (call_create api pd st)))"
  by (simp add: call_create_def mutate_def split: prod.splits)

lemma call_create_stats: "stats (snd (call_create api pd st)) = stats st"
  by (simp add: call_create_def split: prod.splits)

lemma create_record_mutate:
  assumes "a \<noteq> stats st"
  shows "create_record api t ups (mutate a d st) =
     (fst (create_record api t ups st), mutate a d (snd (create_record api t ups st)))"
proof (cases "prepare_product_data t")
  case (Inl e)
  then show ?thesis by (simp add: create_record_def)
next
  case pd: (Inr pd)
  show ?thesis
  proof (cases "add_images 0 ups (wc_images pd)")
    case (Inl e)
    with pd show ?thesis by (simp add: create_record_def)
  next
    case imgs: (Inr imgs)
    obtain out st1 where cc: "call_create api (pd\<lparr>wc_images := imgs\<rparr>) st = (out, st1)"
      by (cases "call_create api (pd\<lparr>wc_images := imgs\<rparr>) st")
    then have cm: "call_create api (pd\<lparr>wc_images := imgs\<rparr>) (mutate a d st) = (out, mutate a d st1)"
      by (simp add: call_create_mutate)
    have "stats st1 = stats st" using call_create_stats [of api "pd\<lparr>wc_images := imgs\<rparr>" st] cc by simp
    with assms have ne: "a \<noteq> stats st1" by simp
    show ?thesis
      using pd imgs cc cm record_result_mutate [OF ne]
      by (cases out) (simp_all add: create_record_def)
  qed
qed

lemma try_body_mutate:
  assumes "a \<noteq> stats st"
  shows "try_body api t (mutate a d st) =
     (fst (try_body api t st), mutate a d (snd (try_body api t st)))"
proof (cases "images t")
  case None
  then show ?thesis by (simp add: try_body_def subscript_def)
next
  case (Some paths)
  obtain out st1 where up: "upload_images api paths [] st = (out, st1)"
    by (cases "upload_images api paths [] st")
  then have um: "upload_images api paths [] (mutate a d st) = (out, mutate a d st1)"
    by (simp add: upload_images_mutate)
  from upload_images_advances [OF up] have "stats st1 = stats st" by (simp add: advances_def)
  with assms have ne: "a \<noteq> stats st1" by simp
  show ?thesis
  proof (cases out)
    case (Inl e)
    with Some up um show ?thesis by (simp add: try_body_def subscript_def)
  next
    case (Inr ups)
    with Some up um show ?thesis
      by (simp add: try_body_def subscript_def no_images_mutate create_record_mutate [OF ne])
  qed
qed

lemma set_pc_mutate: "set_pc i p (mutate a d st) = mutate a d (set_pc i p st)"
  by (simp add: set_pc_def mutate_def)

lemma handler_mutate:
  "a \<noteq> stats st \<Longrightarrow> handler i t e (mutate a d st) = mutate a d (handler i t e st)"
  by (simp add: handler_def task_done_def results_put_def incr_failed_def set_pc_def mutate_def
      fun_upd_twist)

lemma process_task_mutate:
  assumes "a \<noteq> stats st"
  shows "process_task api i t (mutate a d st) = mutate a d (process_task api i t st)"
proof -
  obtain out st1 where tb: "try_body api t st = (out, st1)" by (cases "try_body api t st")
  then have tm: "try_body api t (mutate a d st) = (out, mutate a d st1)"
    by (simp add: try_body_mutate [OF assms])
  have "stats st1 = stats st" using try_body_advances [of t st api] tb by (simp add: advances_def)
  with assms have ne: "a \<noteq> stats st1" by simp
  show ?thesis
  proof (cases out)
    case None
    with tb tm show ?thesis by (simp add: process_task_def set_pc_mutate)
  next
    case (Some e)
    with tb tm show ?thesis
      by (cases e) (simp_all add: process_task_def set_pc_mutate handler_mutate [OF ne])
  qed
qed

lemma worker_step_mutate:
  assumes "a \<noteq> stats st"
  shows "worker_step api i (mutate a d st) = mutate a d (worker_step api i st)"
proof (cases "i < length (workers st)")
  case False
  then show ?thesis by (simp add: worker_step_def mutate_def)
next
  case True
  have f: "workers (mutate a d st) = workers st" "running (mutate a d st) = running st"
    "upload_queue (mutate a d st) = upload_queue st"
    by (simp_all add: mutate_def)
  show ?thesis
  proof (cases "workers st ! i")
    case AtWhile
    with True show ?thesis by (simp add: worker_step_def f set_pc_mutate)
  next
    case Exited
    with True show ?thesis by (simp add: worker_step_def f)
  next
    case InGet
    show ?thesis
    proof (cases "upload_queue st")
      case Nil
      with True InGet show ?thesis by (simp add: worker_step_def f set_pc_mutate)
    next
      case (Cons t q)
      have m: "(mutate a d st)\<lparr>upload_queue := q\<rparr> = mutate a d (st\<lparr>upload_queue := q\<rparr>)"
        by (simp add: mutate_def)
      have "a \<noteq> stats (st\<lparr>upload_queue := q\<rparr>)" using assms by simp
      from process_task_mutate [OF this] True InGet Cons show ?thesis
        by (simp add: worker_step_def f m)
    qed
  qed
qed

lemma step_mutate:
  assumes "a \<noteq> stats st" and "a < next_addr st"
  shows "step api e (mutate a d st) = mutate a d (step api e st)"
proof (cases e)
  case (AddToQueue t)
  with assms show ?thesis by (simp add: add_to_queue_def incr_total_def mutate_def fun_upd_twist)
next
  case GetStats
  with assms show ?thesis by (simp add: get_stats_def mutate_def fun_upd_twist)
next
  case Stop
  then show ?thesis by (simp add: stop_def mutate_def)
next
  case (WorkerStep i)
  with assms show ?thesis by (simp add: worker_step_mutate)
next
  case ResultsStep
  then show ?thesis by (simp add: results_step_def mutate_def split: pc.splits list.splits)
qed simp_all

lemma worker_step_refs:
  "stats (worker_step api i st) = stats st \<and> next_addr (worker_step api i st) = next_addr st"
proof (cases "i < length (workers st) \<and> workers st ! i = InGet \<and> upload_queue st \<noteq> []")
  case False
  then show ?thesis
    by (auto simp: worker_step_def set_pc_def split: pc.splits list.splits)
next
  case True
  then obtain t q where q: "upload_queue st = t # q" by (cases "upload_queue st") auto
  from process_task_shape [of t "st\<lparr>upload_queue := q\<rparr>" api i] obtain p st' where
    "advances t (st\<lparr>upload_queue := q\<rparr>) st'"
    "process_task api i t (st\<lparr>upload_queue := q\<rparr>) = set_pc i p st'" by blast
  with True q show ?thesis by (simp add: worker_step_def set_pc_def advances_def)
qed

lemma step_refs: "stats (step api e st) = stats st \<and> next_addr st \<le> next_addr (step api e st)"
proof (cases e)
  case (WorkerStep i)
  then show ?thesis by (simp add: worker_step_refs)
qed (simp_all add: add_to_queue_def incr_total_def get_stats_def stop_def results_step_def
    split: pc.splits list.splits)

lemma run_mutate:
  "a \<noteq> stats st \<Longrightarrow> a < next_addr st \<Longrightarrow> run api es (mutate a d st) = mutate a d (run api es st)"
proof (induction es arbitrary: st)
  case Nil
  then show ?case by simp
next
  case (Cons e es)
  from step_refs [of api e st] Cons.prems
  have "a \<noteq> stats (step api e st)" "a < next_addr (step api e st)" by simp_all
  from Cons.IH [OF this] step_mutate [OF Cons.prems] show ?case by simp
qed

lemma run_refs: "stats (run api es st) = stats st \<and> next_addr st \<le> next_addr (run api es st)"
proof (induction es arbitrary: st)
  case Nil
  then show ?case by simp
next
  case (Cons e es)
  from Cons.IH [of "step api e st"] step_refs [of api e st] show ?case by simp
qed

lemma reachable_refs: "stats (run api es (init w n)) < next_addr (run api es (init w n))"
  using run_refs [of api es "init w n"] by (simp add: init_def)

text \<open>
  C10. In a state where the manager's stats dict is allocated (every state the manager
  reaches, see \<open>reachable_refs\<close>), \<^verbatim>\<open>get_stats\<close> returns a reference to a new dict with
  the same items: the fields of the manager and every dict that existed are unchanged.
  Whatever the caller then writes into the returned dict (\<open>d\<close>), the manager's counters
  after any later steps \<open>es\<close>, and so any later snapshot, are what they would have been
  without the write.
\<close>

theorem get_stats_returns_copy:
  assumes "stats st < next_addr st"
  shows "fst (get_stats st) \<noteq> stats (snd (get_stats st))
    \<and> heap (snd (get_stats st)) (fst (get_stats st)) = counters st
    \<and> (snd (get_stats st))\<lparr>heap := heap st, next_addr := next_addr st\<rparr> = st
    \<and> (\<forall>b<next_addr st. heap (snd (get_stats st)) b = heap st b)
    \<and> counters (run api es (mutate (fst (get_stats st)) d (snd (get_stats st))))
        = counters (run api es (snd (get_stats st)))
    \<and> heap (snd (get_stats (run api es (mutate (fst (get_stats st)) d (snd (get_stats st))))))
           (fst (get_stats (run api es (mutate (fst (get_stats st)) d (snd (get_stats st))))))
        = counters (run api es (snd (get_stats st)))"
proof -
  let ?a = "fst (get_stats st)" and ?st1 = "snd (get_stats st)"
  have a: "?a = next_addr st" by (simp add: get_stats_def)
  have s1: "stats ?st1 = stats st" "next_addr ?st1 = Suc (next_addr st)" by (simp_all add: get_stats_def)
  have ne: "?a \<noteq> stats ?st1" "?a < next_addr ?st1" using assms a s1 by simp_all
  have rm: "run api es (mutate ?a d ?st1) = mutate ?a d (run api es ?st1)"
    by (rule run_mutate [OF ne])
  have rs: "stats (run api es ?st1) = stats st" using run_refs [of api es ?st1] s1 by simp
  have c: "counters (mutate ?a d (run api es ?st1)) = counters (run api es ?st1)"
    using ne(1) rs s1 by (simp add: counters_def mutate_def)
  have snap: "\<And>S. heap (snd (get_stats S)) (fst (get_stats S)) = counters S"
    by (simp add: get_stats_def counters_def)
  have c1: "heap ?st1 ?a = counters st" by (simp add: get_stats_def counters_def)
  have c2: "?st1\<lparr>heap := heap st, next_addr := next_addr st\<rparr> = st" by (simp add: get_stats_def)
  have c3: "\<forall>b<next_addr st. heap ?st1 b = heap st b" by (simp add: get_stats_def)
  have c4: "counters (run api es (mutate ?a d ?st1)) = counters (run api es ?st1)"
    by (simp only: rm c)
  have c5: "heap (snd (get_stats (run api es (mutate ?a d ?st1))))
      (fst (get_stats (run api es (mutate ?a d ?st1)))) = counters (run api es ?st1)"
    by (simp only: snap c4)
  from ne(1) c1 c2 c3 c4 c5 show ?thesis by (intro conjI)
qed

theorem get_stats_returns_copy_witness:
  "stats (init () (Suc 0)) < next_addr (init () (Suc 0))
   \<and> fst (get_stats (init () (Suc 0))) = 1
   \<and> stats (snd (get_stats (init () (Suc 0)))) = 0
   \<and> counters (run mock_api [AddToQueue (widget [])]
        (mutate (fst (get_stats (init () (Suc 0)))) \<lparr>completed = 9, failed = 9, total = 9\<rparr>
           (snd (get_stats (init () (Suc 0))))))
       = \<lparr>completed = 0, failed = 0, total = 1\<rparr>"
  using get_stats_returns_copy [of "init () (Suc 0)" mock_api "[AddToQueue (widget [])]"
      "\<lparr>completed = 9, failed = 9, total = 9\<rparr>"]
  by (simp add: init_def get_stats_def add_to_queue_def incr_total_def counters_def)

section \<open>Submission\<close>


end
